theory Spec2Isabelle
  imports Complex_Main "HOL-Library.Word" "HOL-Library.Multiset"
begin

section \<open>The HNSW graph (internal/hnsw/hnsw.go)\<close>

text \<open>
  Go's \<open>int\<close> is a 64-bit two's complement integer.  Values are modelled as \<open>int\<close>; where
  an arithmetic result can leave the 64-bit range the wrap-around is written out with
  \<open>wrap64\<close>.  \<open>uint32\<close> conversions are written out with \<open>uint32\<close>.
\<close>

definition wrap64 :: "int \<Rightarrow> int" where
  "wrap64 x = (x + 9223372036854775808) mod 18446744073709551616 - 9223372036854775808"

definition uint32 :: "nat \<Rightarrow> nat" where
  "uint32 n = n mod 4294967296"

definition DefaultM :: int where "DefaultM = 16"
definition DefaultEfConstruction :: int where "DefaultEfConstruction = 200"
definition DefaultEfSearch :: int where "DefaultEfSearch = 50"

text \<open>
  \<open>math/rand\<close> is library code: the generator behind \<open>rand.NewSource\<close> and \<open>Float64\<close>
  is a parameter of the model.  A generator state has type \<open>'r\<close>; \<open>Float64\<close> returns the
  drawn number and the next state.
\<close>

record 'r mathrand =
  NewSource :: "int \<Rightarrow> 'r"
  Float64 :: "'r \<Rightarrow> real \<times> 'r"

text \<open>
  A node: \<open>neighbors\<close> holds one list of node ids per layer, \<open>vec\<close> the vector.  The
  component type \<open>'a\<close> stands for \<open>float32\<close>; the graph code uses only its zero, addition,
  multiplication and comparison, and no law of them is assumed.
\<close>

record 'a node =
  neighbors :: "nat list list"
  vec :: "'a list"

text \<open>
  The graph.  The field \<open>m\<close> of the source is called \<open>gm\<close>.  \<open>ml\<close> is a \<open>float64\<close> in
  the source and a real number here.
\<close>

record ('a, 'r) Graph =
  nodes :: "'a node list"
  entryPoint :: nat
  maxLayer :: int
  gm :: int
  efConstruction :: int
  efSearch :: int
  ml :: real
  rng :: 'r

definition New :: "'r mathrand \<Rightarrow> int \<Rightarrow> int \<Rightarrow> int \<Rightarrow> ('a, 'r) Graph" where
  "New lib m0 efc0 efs0 =
     (let m1 = (if m0 \<le> 0 then DefaultM else m0);
          efc1 = (if efc0 \<le> 0 then DefaultEfConstruction else efc0);
          efs1 = (if efs0 \<le> 0 then DefaultEfSearch else efs0)
      in \<lparr> nodes = [], entryPoint = 0, maxLayer = 0, gm = m1,
           efConstruction = efc1, efSearch = efs1,
           ml = 1 / ln (real_of_int m1), rng = NewSource lib 42 \<rparr>)"

definition Len :: "('a, 'r) Graph \<Rightarrow> nat" where
  "Len g = length (nodes g)"

text \<open>The divisor of the level factor: \<open>ml = 1 / ml_divisor\<close>.\<close>

definition ml_divisor :: "('a, 'r) Graph \<Rightarrow> real" where
  "ml_divisor g = ln (real_of_int (gm g))"

text \<open>
  \<open>randomLevel\<close>: \<open>int(math.Floor(-math.Log(rng.Float64()) * ml))\<close>, computed over the
  reals (the rounding of \<open>float64\<close> and the conversion of values outside the 64-bit range
  are not modelled).  The generator state advances by one draw.
\<close>

definition randomLevel :: "'r mathrand \<Rightarrow> ('a, 'r) Graph \<Rightarrow> int \<times> 'r" where
  "randomLevel lib g = (let (u, r') = Float64 lib (rng g) in (\<lfloor>- ln u * ml g\<rfloor>, r'))"

text \<open>
  A call that does not return normally (a run-time panic: index out of range, a negative
  length or capacity given to \<open>make\<close>, a slice bound out of range; or a loop that does not
  end) has the value \<open>None\<close>.  \<open>fold_opt\<close> is a \<open>for ... range\<close> loop whose body may panic.
\<close>

fun fold_opt :: "('s \<Rightarrow> 'b \<Rightarrow> 's option) \<Rightarrow> 's \<Rightarrow> 'b list \<Rightarrow> 's option" where
  "fold_opt f s [] = Some s"
| "fold_opt f s (x # xs) = (case f s x of None \<Rightarrow> None | Some s' \<Rightarrow> fold_opt f s' xs)"

text \<open>\<open>sim\<close> ranges over the indices of \<open>a\<close> and reads \<open>b\<close> at each: it panics when \<open>b\<close> is shorter.\<close>

definition sim :: "'a::{zero,plus,times} list \<Rightarrow> 'a list \<Rightarrow> 'a option" where
  "sim a b = (if length b < length a then None
              else Some (foldl (\<lambda>s (x, y). s + x * y) 0 (zip a b)))"

text \<open>A candidate is a pair \<open>(id, dist)\<close>.\<close>

type_synonym 'a candidate = "nat \<times> 'a"

definition swap :: "'b list \<Rightarrow> nat \<Rightarrow> nat \<Rightarrow> 'b list" where
  "swap h i j = h[i := h ! j, j := h ! i]"

text \<open>\<open>maxHeap.Less(i, j)\<close> is \<open>h[i].dist > h[j].dist\<close>.\<close>

definition maxHeap_Less :: "'a::ord candidate list \<Rightarrow> nat \<Rightarrow> nat \<Rightarrow> bool" where
  "maxHeap_Less h i j \<longleftrightarrow> snd (h ! j) < snd (h ! i)"

text \<open>
  The binary heap of Go's \<open>container/heap\<close> (library code): \<open>up\<close>, \<open>down\<close>, \<open>Init\<close>, \<open>Push\<close>
  and \<open>Pop\<close> over the slice.  In \<open>up\<close> the parent of index 0 is \<open>(0 - 1) / 2 = 0\<close> in Go
  (truncating division), which natural-number subtraction reproduces.
\<close>

function heap_up :: "'a::ord candidate list \<Rightarrow> nat \<Rightarrow> 'a candidate list" where
  "heap_up h j = (let i = (j - 1) div 2 in
     if i = j \<or> \<not> maxHeap_Less h j i then h else heap_up (swap h i j) i)"
  by pat_completeness auto
termination
  by (relation "measure snd") auto

function heap_down :: "'a::ord candidate list \<Rightarrow> nat \<Rightarrow> nat \<Rightarrow> 'a candidate list" where
  "heap_down h i n = (let j1 = 2 * i + 1 in
     if n \<le> j1 then h
     else let j = (if j1 + 1 < n \<and> maxHeap_Less h (j1 + 1) j1 then j1 + 1 else j1) in
       if \<not> maxHeap_Less h j i then h else heap_down (swap h i j) j n)"
  by pat_completeness auto
termination
  by (relation "measure (\<lambda>(h, i, n). n - i)") (auto split: if_splits)

declare heap_up.simps [simp del] heap_down.simps [simp del]

definition heap_Init :: "'a::ord candidate list \<Rightarrow> 'a candidate list" where
  "heap_Init h = foldl (\<lambda>h i. heap_down h i (length h)) h (rev [0..<length h div 2])"

definition heap_Push :: "'a::ord candidate list \<Rightarrow> 'a candidate \<Rightarrow> 'a candidate list" where
  "heap_Push h x = heap_up (h @ [x]) (length h)"

definition heap_Pop :: "'a::ord candidate list \<Rightarrow> 'a candidate \<times> 'a candidate list" where
  "heap_Pop h = (let n = length h - 1; h' = heap_down (swap h 0 n) 0 n in (last h', butlast h'))"

text \<open>The closure \<open>minSimInW\<close> of \<open>searchLayer\<close>; it reads \<open>W[0]\<close>.\<close>

fun minSimInW :: "'a::ord candidate list \<Rightarrow> 'a option" where
  "minSimInW [] = None"
| "minSimInW (c # cs) = Some (foldl (\<lambda>m c. if snd c < m then snd c else m) (snd c) cs)"

text \<open>Removing the worst element of \<open>W\<close>: the last element overwrites the first minimum.\<close>

definition removeWorst :: "'a::ord candidate list \<Rightarrow> 'a candidate list" where
  "removeWorst W =
     (let minIdx = foldl (\<lambda>mi i. if snd (W ! i) < snd (W ! mi) then i else mi) 0 [1..<length W]
      in butlast (W[minIdx := last W]))"

text \<open>
  The exchange sort written out at the end of \<open>searchLayer\<close> and again in
  \<open>pruneNeighbours\<close> (descending by \<open>dist\<close>).
\<close>

definition sortDesc :: "'a::ord candidate list \<Rightarrow> 'a candidate list" where
  "sortDesc W = foldl (\<lambda>W i. foldl (\<lambda>W j. if snd (W ! i) < snd (W ! j) then swap W i j else W)
                                    W [i + 1..<length W])
                      W [0..<length W - 1]"

text \<open>The state of the beam search: the visited set, \<open>C\<close>, \<open>W\<close> and \<open>worstSim\<close>.\<close>

type_synonym 'a beam = "nat set \<times> 'a candidate list \<times> 'a candidate list \<times> 'a"

text \<open>The body of the loop over the neighbours of the popped candidate.\<close>

definition sl_visit ::
  "('a::{zero,plus,times,ord}, 'r) Graph \<Rightarrow> 'a list \<Rightarrow> int \<Rightarrow> 'a beam \<Rightarrow> nat \<Rightarrow> 'a beam option" where
  "sl_visit g q ef st nb = (case st of (visited, C, W, worstSim) \<Rightarrow>
     if nb \<in> visited then Some st
     else if length (nodes g) \<le> nb then None
     else (case sim q (vec (nodes g ! nb)) of None \<Rightarrow> None
       | Some s \<Rightarrow>
         if int (length W) < ef \<or> worstSim < s then
           (let W1 = W @ [(nb, s)];
                W2 = (if ef < int (length W1) then removeWorst W1 else W1)
            in (case minSimInW W2 of None \<Rightarrow> None
                | Some w \<Rightarrow> Some (insert nb visited, heap_Push C (nb, s), W2, w)))
         else Some (insert nb visited, C, W, worstSim)))"

partial_function (option) searchLayer_loop ::
  "('a::{zero,plus,times,ord}, 'r) Graph \<Rightarrow> 'a list \<Rightarrow> int \<Rightarrow> int \<Rightarrow> nat set \<Rightarrow>
   'a candidate list \<Rightarrow> 'a candidate list \<Rightarrow> 'a \<Rightarrow> 'a candidate list option" where
  "searchLayer_loop g q ef lc visited C W worstSim =
     (if C = [] then Some W
      else let c = fst (heap_Pop C); C1 = snd (heap_Pop C) in
        if ef \<le> int (length W) \<and> snd c < worstSim then Some W
        else if length (nodes g) \<le> fst c then None
        else if lc < int (length (neighbors (nodes g ! fst c))) then
          (if lc < 0 then None
           else (case fold_opt (sl_visit g q ef) (visited, C1, W, worstSim)
                        (neighbors (nodes g ! fst c) ! nat lc) of
                   None \<Rightarrow> None
                 | Some (visited', C', W', worstSim') \<Rightarrow>
                     searchLayer_loop g q ef lc visited' C' W' worstSim'))
        else searchLayer_loop g q ef lc visited C1 W worstSim)"

definition searchLayer ::
  "('a::{zero,plus,times,ord}, 'r) Graph \<Rightarrow> 'a list \<Rightarrow> nat \<Rightarrow> int \<Rightarrow> int \<Rightarrow> 'a candidate list option" where
  "searchLayer g q ep ef lc =
     (if length (nodes g) \<le> ep then None
      else (case sim q (vec (nodes g ! ep)) of None \<Rightarrow> None
        | Some epSim \<Rightarrow>
           (case searchLayer_loop g q ef lc {ep} (heap_Init [(ep, epSim)]) [(ep, epSim)] epSim of
              None \<Rightarrow> None
            | Some W \<Rightarrow> Some (sortDesc W))))"

text \<open>\<open>greedySearchLayer\<close>: one pass over the neighbours of \<open>best\<close>, repeated while it changed.\<close>

definition greedy_visit ::
  "('a::{zero,plus,times,ord}, 'r) Graph \<Rightarrow> 'a list \<Rightarrow> nat \<times> 'a \<times> bool \<Rightarrow> nat \<Rightarrow> (nat \<times> 'a \<times> bool) option" where
  "greedy_visit g q st nb = (case st of (best, bestSim, changed) \<Rightarrow>
     if length (nodes g) \<le> nb then None
     else (case sim q (vec (nodes g ! nb)) of None \<Rightarrow> None
       | Some s \<Rightarrow> if bestSim < s then Some (nb, s, True) else Some (best, bestSim, changed)))"

partial_function (option) greedy_loop ::
  "('a::{zero,plus,times,ord}, 'r) Graph \<Rightarrow> 'a list \<Rightarrow> int \<Rightarrow> nat \<Rightarrow> 'a \<Rightarrow> nat option" where
  "greedy_loop g q lc best bestSim =
     (if length (nodes g) \<le> best then None
      else if lc < int (length (neighbors (nodes g ! best))) then
        (if lc < 0 then None
         else (case fold_opt (greedy_visit g q) (best, bestSim, False)
                      (neighbors (nodes g ! best) ! nat lc) of
                 None \<Rightarrow> None
               | Some (best', bestSim', changed) \<Rightarrow>
                   if changed then greedy_loop g q lc best' bestSim' else Some best'))
      else Some best)"

definition greedySearchLayer ::
  "('a::{zero,plus,times,ord}, 'r) Graph \<Rightarrow> 'a list \<Rightarrow> nat \<Rightarrow> int \<Rightarrow> nat option" where
  "greedySearchLayer g q ep lc =
     (if length (nodes g) \<le> ep then None
      else (case sim q (vec (nodes g ! ep)) of None \<Rightarrow> None
        | Some bestSim \<Rightarrow> greedy_loop g q lc ep bestSim))"

definition selectNeighbours :: "'a candidate list \<Rightarrow> int \<Rightarrow> nat list option" where
  "selectNeighbours candidates m =
     (if int (length candidates) \<le> m then Some (map fst candidates)
      else if m < 0 then None
      else Some (map fst (take (nat m) candidates)))"

definition pruneNeighbours ::
  "('a::{zero,plus,times,ord}, 'r) Graph \<Rightarrow> nat \<Rightarrow> nat list \<Rightarrow> int \<Rightarrow> nat list option" where
  "pruneNeighbours g i nbs maxConn =
     (case fold_opt (\<lambda>scored n.
              if length (nodes g) \<le> i \<or> length (nodes g) \<le> n then None
              else (case sim (vec (nodes g ! i)) (vec (nodes g ! n)) of None \<Rightarrow> None
                    | Some d \<Rightarrow> Some (scored @ [(n, d)]))) [] nbs of
        None \<Rightarrow> None
      | Some scored \<Rightarrow>
          (let sorted = sortDesc scored in
           if maxConn < int (length sorted)
           then (if maxConn < 0 then None else Some (map fst (take (nat maxConn) sorted)))
           else Some (map fst sorted)))"

text \<open>Reading and writing \<open>g.nodes[i].neighbors[lc]\<close>.\<close>

definition get_neighbors :: "('a, 'r) Graph \<Rightarrow> nat \<Rightarrow> int \<Rightarrow> nat list option" where
  "get_neighbors g i lc =
     (if length (nodes g) \<le> i \<or> lc < 0 \<or> int (length (neighbors (nodes g ! i))) \<le> lc then None
      else Some (neighbors (nodes g ! i) ! nat lc))"

definition set_neighbors :: "('a, 'r) Graph \<Rightarrow> nat \<Rightarrow> int \<Rightarrow> nat list \<Rightarrow> ('a, 'r) Graph option" where
  "set_neighbors g i lc l =
     (if length (nodes g) \<le> i \<or> lc < 0 \<or> int (length (neighbors (nodes g ! i))) \<le> lc then None
      else Some (g\<lparr>nodes := (nodes g)[i := (nodes g ! i)\<lparr>neighbors :=
                                   (neighbors (nodes g ! i))[nat lc := l]\<rparr>]\<rparr>))"

definition maxConn_of :: "('a, 'r) Graph \<Rightarrow> int \<Rightarrow> int" where
  "maxConn_of g lc = (if lc = 0 then wrap64 (2 * gm g) else gm g)"

text \<open>The body of the loop over \<open>selected\<close>: link \<open>nb\<close> back to the new node, prune if over capacity.\<close>

definition connect_back ::
  "nat \<Rightarrow> int \<Rightarrow> ('a::{zero,plus,times,ord}, 'r) Graph \<Rightarrow> nat \<Rightarrow> ('a, 'r) Graph option" where
  "connect_back i lc g nb =
     (case get_neighbors g nb lc of None \<Rightarrow> None
      | Some l \<Rightarrow>
         (case set_neighbors g nb lc (l @ [i]) of None \<Rightarrow> None
          | Some g1 \<Rightarrow>
             if maxConn_of g lc < int (length (l @ [i])) then
               (case pruneNeighbours g1 nb (l @ [i]) (maxConn_of g lc) of None \<Rightarrow> None
                | Some p \<Rightarrow> set_neighbors g1 nb lc p)
             else Some g1))"

text \<open>The body of the loop over the layers \<open>min(level, epLevel)\<close> down to 0; the state is the graph and \<open>ep\<close>.\<close>

definition insert_layer ::
  "'a list \<Rightarrow> nat \<Rightarrow> ('a::{zero,plus,times,ord}, 'r) Graph \<times> nat \<Rightarrow> int \<Rightarrow> (('a, 'r) Graph \<times> nat) option" where
  "insert_layer v i st lc = (case st of (g, ep) \<Rightarrow>
     (case searchLayer g v ep (efConstruction g) lc of None \<Rightarrow> None
      | Some candidates \<Rightarrow>
         (case selectNeighbours candidates (gm g) of None \<Rightarrow> None
          | Some selected \<Rightarrow>
             (case set_neighbors g i lc selected of None \<Rightarrow> None
              | Some g1 \<Rightarrow>
                 (case fold_opt (connect_back i lc) g1 selected of None \<Rightarrow> None
                  | Some g2 \<Rightarrow>
                      Some (g2, if candidates \<noteq> [] then fst (hd candidates) else ep))))))"

text \<open>
  \<open>Insert\<close>, after the level has been drawn.  The allocation of the neighbour lists
  panics on a negative length (\<open>level + 1\<close>) or capacity (\<open>2 * m\<close> at layer 0, \<open>m\<close> above).
\<close>

definition Insert_at ::
  "int \<Rightarrow> 'a list \<Rightarrow> ('a::{zero,plus,times,ord}, 'r) Graph \<Rightarrow> ('a, 'r) Graph option" where
  "Insert_at level v g =
     (let i = uint32 (length (nodes g))
      in if wrap64 (level + 1) < 0 then None
         else if 0 \<le> level \<and> (wrap64 (2 * gm g) < 0 \<or> (1 \<le> level \<and> gm g < 0)) then None
         else
           (let g0 = g\<lparr>nodes := nodes g @ [\<lparr>neighbors = replicate (nat (level + 1)) [], vec = v\<rparr>]\<rparr>
            in if i = 0 then Some (g0\<lparr>entryPoint := 0, maxLayer := level\<rparr>)
               else (case fold_opt (greedySearchLayer g0 v) (entryPoint g0)
                            (rev [level + 1..maxLayer g0]) of
                       None \<Rightarrow> None
                     | Some ep \<Rightarrow>
                        (case fold_opt (insert_layer v i) (g0, ep)
                                (rev [0..min level (maxLayer g0)]) of
                           None \<Rightarrow> None
                         | Some (g1, ep') \<Rightarrow>
                             Some (if maxLayer g0 < level
                                   then g1\<lparr>entryPoint := i, maxLayer := level\<rparr> else g1)))))"

text \<open>\<open>Insert\<close>: draw the level from the graph's generator, then insert at that level.\<close>

definition Insert ::
  "'r mathrand \<Rightarrow> 'a list \<Rightarrow> ('a::{zero,plus,times,ord}, 'r) Graph \<Rightarrow> ('a, 'r) Graph option" where
  "Insert lib v g =
     Insert_at (fst (randomLevel lib g)) v (g\<lparr>rng := snd (randomLevel lib g)\<rparr>)"

text \<open>A sequence of insertions, in order; it completes when every insertion does.\<close>

definition insert_all ::
  "'r mathrand \<Rightarrow> ('a::{zero,plus,times,ord}, 'r) Graph \<Rightarrow> 'a list list \<Rightarrow> ('a, 'r) Graph option" where
  "insert_all lib g vs = fold_opt (\<lambda>g v. Insert lib v g) g vs"

definition Search ::
  "('a::{zero,plus,times,ord}, 'r) Graph \<Rightarrow> 'a list \<Rightarrow> int \<Rightarrow> 'a candidate list option" where
  "Search g q k =
     (if nodes g = [] then Some []
      else (case fold_opt (greedySearchLayer g q) (entryPoint g) (rev [1..maxLayer g]) of
              None \<Rightarrow> None
            | Some ep \<Rightarrow>
               (let ef = (if efSearch g < k then k else efSearch g) in
                (case searchLayer g q ep ef 0 of None \<Rightarrow> None
                 | Some candidates \<Rightarrow>
                     if k < int (length candidates)
                     then (if k < 0 then None else Some (take (nat k) candidates))
                     else Some candidates))))"

section \<open>Invariants of the graph\<close>

text \<open>\<open>layers g a\<close> is the number of layers of node \<open>a\<close>, \<open>adj g a L\<close> its neighbour list at layer \<open>L\<close>.\<close>

definition layers :: "('a, 'r) Graph \<Rightarrow> nat \<Rightarrow> nat" where
  "layers g a = length (neighbors (nodes g ! a))"

definition adj :: "('a, 'r) Graph \<Rightarrow> nat \<Rightarrow> nat \<Rightarrow> nat list" where
  "adj g a L = neighbors (nodes g ! a) ! L"

text \<open>Two graphs that differ at most in the contents of neighbour lists.\<close>

definition same_frame :: "('a, 'r) Graph \<Rightarrow> ('a, 'r) Graph \<Rightarrow> bool" where
  "same_frame g g' \<longleftrightarrow>
     length (nodes g') = length (nodes g) \<and> map vec (nodes g') = map vec (nodes g) \<and>
     (\<forall>a. layers g' a = layers g a) \<and> gm g' = gm g \<and> efConstruction g' = efConstruction g \<and>
     efSearch g' = efSearch g \<and> entryPoint g' = entryPoint g \<and> maxLayer g' = maxLayer g \<and>
     ml g' = ml g \<and> rng g' = rng g"

text \<open>
  A link from \<open>a\<close> to \<open>b\<close> at layer \<open>L\<close> is in order when \<open>b\<close> is a node with a layer \<open>L\<close> that
  either links back to \<open>a\<close> or has a full list (\<open>maxConn_of\<close> entries).  \<open>cap_ok\<close>: no list
  exceeds its capacity.  \<open>links_ok\<close>: every link is in order.
\<close>

definition edge_ok :: "('a, 'r) Graph \<Rightarrow> nat \<Rightarrow> nat \<Rightarrow> nat \<Rightarrow> bool" where
  "edge_ok g a L b \<longleftrightarrow> b < length (nodes g) \<and> L < layers g b \<and>
     (a \<in> set (adj g b L) \<or> int (length (adj g b L)) = maxConn_of g (int L))"

definition cap_ok :: "('a, 'r) Graph \<Rightarrow> bool" where
  "cap_ok g \<longleftrightarrow> (\<forall>a<length (nodes g). \<forall>L<layers g a.
     int (length (adj g a L)) \<le> maxConn_of g (int L))"

definition links_ok :: "('a, 'r) Graph \<Rightarrow> bool" where
  "links_ok g \<longleftrightarrow> (\<forall>a<length (nodes g). \<forall>L<layers g a. \<forall>b\<in>set (adj g a L). edge_ok g a L b)"

text \<open>
  During one insertion: no list below layer \<open>K\<close> mentions the new node \<open>i\<close> yet; and the
  invariant of the loop over \<open>selected\<close> at layer \<open>L\<close>, where the links from \<open>i\<close> to the
  nodes still to be visited (\<open>rest\<close>) are pending.
\<close>

definition fresh_below :: "nat \<Rightarrow> nat \<Rightarrow> ('a, 'r) Graph \<Rightarrow> bool" where
  "fresh_below i K g \<longleftrightarrow> (\<forall>L<K. \<forall>a<length (nodes g). L < layers g a \<longrightarrow> i \<notin> set (adj g a L))"

definition link_inv :: "nat \<Rightarrow> nat \<Rightarrow> nat list \<Rightarrow> nat list \<Rightarrow> ('a, 'r) Graph \<Rightarrow> bool" where
  "link_inv i L sel rest g \<longleftrightarrow>
     i < length (nodes g) \<and> L < layers g i \<and>
     (\<forall>a<length (nodes g). \<forall>L'<layers g a. \<forall>b\<in>set (adj g a L').
         edge_ok g a L' b \<or> (a = i \<and> L' = L \<and> b \<in> set rest)) \<and>
     (\<forall>b\<in>set sel. b \<in> set (adj g i L) \<or> int (length (adj g i L)) = maxConn_of g (int L)) \<and>
     fresh_below i L g"

text \<open>The graph right after the new node has been appended.\<close>

definition with_node :: "('a, 'r) Graph \<Rightarrow> int \<Rightarrow> 'a list \<Rightarrow> ('a, 'r) Graph" where
  "with_node g level v =
     g\<lparr>nodes := nodes g @ [\<lparr>neighbors = replicate (nat (level + 1)) [], vec = v\<rparr>]\<rparr>"

section \<open>A generator model and concrete graphs\<close>

text \<open>
  A generator model for concrete runs: every \<open>Float64\<close> draws the same number \<open>u\<close>; the
  state counts the draws.  With \<open>1 / m < u < 1\<close> every drawn level is 0.
\<close>

definition fixed_rand :: "real \<Rightarrow> nat mathrand" where
  "fixed_rand u = \<lparr>NewSource = (\<lambda>s. 0), Float64 = (\<lambda>r. (u, r + 1))\<rparr>"

text \<open>
  A graph all of whose nodes have level 0, given by its parameters, the generator state and,
  per node, the layer-0 neighbour list and the vector.
\<close>

definition layer0_graph ::
  "int \<Rightarrow> int \<Rightarrow> int \<Rightarrow> nat \<Rightarrow> (nat list \<times> int list) list \<Rightarrow> (int, nat) Graph" where
  "layer0_graph m efc efs r ns =
     \<lparr>nodes = map (\<lambda>(l, v). \<lparr>neighbors = [l], vec = v\<rparr>) ns, entryPoint = 0, maxLayer = 0,
      gm = m, efConstruction = efc, efSearch = efs, ml = 1 / ln (real_of_int m), rng = r\<rparr>"

text \<open>
  The graph built with \<open>m = 2\<close> from five copies of the unit vector \<open>(1, 0)\<close> followed by
  \<open>(0, 1)\<close>, all at level 0.
\<close>

definition pruned_graph :: "(int, nat) Graph" where
  "pruned_graph = layer0_graph 2 200 50 6
     [([1, 2, 3, 4], [1, 0]), ([0, 2, 3, 4], [1, 0]), ([0, 1], [1, 0]),
      ([0, 1], [1, 0]), ([0, 1], [1, 0]), ([0, 1], [0, 1])]"

section \<open>Constructor parameters\<close>

text \<open>
  C10, as stated, asks for a well-defined level factor \<open>1 / ln m\<close> for every constructed
  graph.  The constructor accepts \<open>m = 1\<close> unchanged, and then the divisor \<open>ln m\<close> is zero.
\<close>

theorem C10_counterexample:
  "gm (New (fixed_rand (1/2)) 1 200 50
        :: (int, nat) Graph) = 1
   \<and> ml_divisor (New (fixed_rand (1/2)) 1 200 50
        :: (int, nat) Graph) = 0"
  by (simp add: New_def ml_divisor_def)

text \<open>
  C10 (amended): \<open>New\<close> replaces every non-positive argument by its default (16, 200, 50)
  and keeps every positive one, so all three parameters of a constructed graph are
  strictly positive; \<open>New\<close> always returns a graph with no nodes (nothing is rejected);
  the level factor is \<open>1 / ln m\<close>, and its divisor is strictly positive whenever the
  resulting \<open>m\<close> is at least 2, as it is for the default.
\<close>

theorem C10_New_parameters:
  "gm (New lib m0 efc0 efs0 :: ('a, 'r) Graph) = (if m0 \<le> 0 then 16 else m0)
   \<and> efConstruction (New lib m0 efc0 efs0 :: ('a, 'r) Graph) = (if efc0 \<le> 0 then 200 else efc0)
   \<and> efSearch (New lib m0 efc0 efs0 :: ('a, 'r) Graph) = (if efs0 \<le> 0 then 50 else efs0)
   \<and> 0 < gm (New lib m0 efc0 efs0 :: ('a, 'r) Graph)
   \<and> 0 < efConstruction (New lib m0 efc0 efs0 :: ('a, 'r) Graph)
   \<and> 0 < efSearch (New lib m0 efc0 efs0 :: ('a, 'r) Graph)
   \<and> nodes (New lib m0 efc0 efs0 :: ('a, 'r) Graph) = []
   \<and> ml (New lib m0 efc0 efs0 :: ('a, 'r) Graph)
       = 1 / ml_divisor (New lib m0 efc0 efs0 :: ('a, 'r) Graph)
   \<and> (2 \<le> gm (New lib m0 efc0 efs0 :: ('a, 'r) Graph)
        \<longrightarrow> 0 < ml_divisor (New lib m0 efc0 efs0 :: ('a, 'r) Graph))
   \<and> (m0 \<le> 0 \<longrightarrow> 0 < ml_divisor (New lib m0 efc0 efs0 :: ('a, 'r) Graph))"
  by (simp add: New_def ml_divisor_def DefaultM_def DefaultEfConstruction_def
        DefaultEfSearch_def Let_def)

theorem C10_New_parameters_witness:
  "gm (New (fixed_rand (1/2)) 0 (-3) 7
        :: (int, nat) Graph) = 16
   \<and> efConstruction (New (fixed_rand (1/2)) 0 (-3) 7
        :: (int, nat) Graph) = 200
   \<and> efSearch (New (fixed_rand (1/2)) 0 (-3) 7
        :: (int, nat) Graph) = 7
   \<and> 0 < ml_divisor (New (fixed_rand (1/2)) 0 (-3) 7
        :: (int, nat) Graph)"
  using C10_New_parameters [of "(fixed_rand (1/2))" 0 "-3" 7,
      where 'a = int]
  by simp

section \<open>Insertion preserves the invariants\<close>

lemma same_frame_refl: "same_frame g g"
  by (simp add: same_frame_def)

lemma same_frame_trans: "same_frame g g' \<Longrightarrow> same_frame g' g'' \<Longrightarrow> same_frame g g''"
  by (simp add: same_frame_def)

lemma same_frame_maxConn: "same_frame g g' \<Longrightarrow> maxConn_of g' lc = maxConn_of g lc"
  by (simp add: same_frame_def maxConn_of_def)

lemma mset_swap_lt: "i < length h \<Longrightarrow> j < length h \<Longrightarrow> mset (swap h i j) = mset h"
  unfolding swap_def by (metis mset_swap)

lemma length_swap: "length (swap h i j) = length h"
  by (simp add: swap_def)

lemma sort_inner:
  "i < length W \<Longrightarrow> \<forall>j \<in> set js. j < length W \<Longrightarrow>
   mset (foldl (\<lambda>W j. if P W j then swap W i j else W) W js) = mset W"
proof (induction js arbitrary: W)
  case Nil
  then show ?case by simp
next
  case (Cons j js)
  let ?W' = "if P W j then swap W i j else W"
  have len: "length ?W' = length W" by (simp add: length_swap)
  have ms: "mset ?W' = mset W" using Cons.prems by (simp add: mset_swap_lt)
  have "mset (foldl (\<lambda>W j. if P W j then swap W i j else W) ?W' js) = mset ?W'"
    using Cons.prems len by (intro Cons.IH) auto
  then show ?case using ms by simp
qed

lemma sort_outer:
  "\<forall>i \<in> set is. i < length W \<Longrightarrow>
   mset (foldl (\<lambda>W i. foldl (\<lambda>W j. if snd (W ! i) < snd (W ! j) then swap W i j else W)
                                    W [i + 1..<length W]) W is) = mset W"
proof (induction "is" arbitrary: W)
  case Nil
  then show ?case by simp
next
  case (Cons i "is")
  define W' where "W' = foldl (\<lambda>W j. if snd (W ! i) < snd (W ! j) then swap W i j else W) W [i + 1..<length W]"
  have i: "i < length W" using Cons.prems by simp
  have js: "\<forall>j \<in> set [i + 1..<length W]. j < length W" by simp
  have ms: "mset W' = mset W"
    unfolding W'_def
    by (rule sort_inner [where P = "\<lambda>W j. snd (W ! i) < snd (W ! j)", OF i js])
  then have len: "length W' = length W" by (metis size_mset)
  have "\<forall>i \<in> set is. i < length W'" using Cons.prems len by simp
  then have "mset (foldl (\<lambda>W i. foldl (\<lambda>W j. if snd (W ! i) < snd (W ! j) then swap W i j else W)
                                    W [i + 1..<length W]) W' is) = mset W'"
    by (rule Cons.IH)
  then show ?case using ms by (simp add: W'_def)
qed

lemma mset_sortDesc: "mset (sortDesc W) = mset W"
proof -
  have "\<forall>i \<in> set [0..<length W - 1]. i < length W" by auto
  then show ?thesis unfolding sortDesc_def by (rule sort_outer)
qed

lemma length_sortDesc: "length (sortDesc W) = length W"
  by (metis mset_sortDesc size_mset)

lemma set_sortDesc: "set (sortDesc W) = set W"
  by (metis mset_sortDesc set_mset_mset)

lemma score_fold:
  "fold_opt (\<lambda>scored n. if c n then None else (case f n of None \<Rightarrow> None
                    | Some d \<Rightarrow> Some (scored @ [(n, d)]))) acc nbs = Some scored
   \<Longrightarrow> map fst scored = map fst acc @ nbs"
proof (induction nbs arbitrary: acc)
  case Nil
  then show ?case by simp
next
  case (Cons n nbs)
  then show ?case by (auto split: if_splits option.splits)
qed

lemma pruneNeighbours_Some:
  assumes "pruneNeighbours g i nbs mc = Some p" and "mc < int (length nbs)"
  shows "int (length p) = mc \<and> set p \<subseteq> set nbs"
proof -
  from assms(1) obtain scored where
    sc: "fold_opt (\<lambda>scored n.
              if length (nodes g) \<le> i \<or> length (nodes g) \<le> n then None
              else (case sim (vec (nodes g ! i)) (vec (nodes g ! n)) of None \<Rightarrow> None
                    | Some d \<Rightarrow> Some (scored @ [(n, d)]))) [] nbs = Some scored"
    and p: "(let sorted = sortDesc scored in
           if mc < int (length sorted)
           then (if mc < 0 then None else Some (map fst (take (nat mc) sorted)))
           else Some (map fst sorted)) = Some p"
    unfolding pruneNeighbours_def by (auto split: option.splits)
  have fs: "map fst scored = nbs" using score_fold [OF sc] by simp
  then have len: "length scored = length nbs" by (metis length_map)
  have "mc < int (length (sortDesc scored))" using assms(2) len by (simp add: length_sortDesc)
  with p have mc0: "0 \<le> mc" and pe: "p = map fst (take (nat mc) (sortDesc scored))"
    by (auto simp: Let_def split: if_splits)
  have "length p = nat mc" using pe assms(2) len mc0 by (simp add: length_sortDesc)
  moreover have "set p \<subseteq> fst ` set (sortDesc scored)"
    using pe by (auto dest: in_set_takeD)
  moreover have "fst ` set (sortDesc scored) = set nbs"
    using fs by (metis set_sortDesc set_map)
  ultimately show ?thesis using mc0 by auto
qed

lemma set_neighbors_Some:
  assumes "set_neighbors g i lc l = Some g'"
  shows "i < length (nodes g)" and "0 \<le> lc" and "nat lc < layers g i" and "same_frame g g'"
    and "\<And>a L. adj g' a L = (if a = i \<and> L = nat lc then l else adj g a L)"
proof -
  from assms have c: "i < length (nodes g)" "0 \<le> lc" "lc < int (length (neighbors (nodes g ! i)))"
    and g': "g' = g\<lparr>nodes := (nodes g)[i := (nodes g ! i)\<lparr>neighbors :=
                                   (neighbors (nodes g ! i))[nat lc := l]\<rparr>]\<rparr>"
    unfolding set_neighbors_def by (auto split: if_splits)
  show "i < length (nodes g)" "0 \<le> lc" by fact+
  show "nat lc < layers g i" using c by (simp add: layers_def)
  show "same_frame g g'"
    using c unfolding same_frame_def g' layers_def
    by (auto simp: nth_list_update map_update list_update_same_conv)
  show "\<And>a L. adj g' a L = (if a = i \<and> L = nat lc then l else adj g a L)"
    using c unfolding g' adj_def by (auto simp: nth_list_update)
qed

lemma get_neighbors_Some:
  assumes "get_neighbors g i lc = Some l"
  shows "i < length (nodes g)" and "0 \<le> lc" and "nat lc < layers g i" and "l = adj g i (nat lc)"
  using assms unfolding get_neighbors_def layers_def adj_def by (auto split: if_splits)

lemma connect_back_Some:
  assumes "connect_back i lc g nb = Some g'"
  shows "\<exists>p. nb < length (nodes g) \<and> 0 \<le> lc \<and> nat lc < layers g nb \<and> same_frame g g' \<and>
             (\<forall>a L. adj g' a L = (if a = nb \<and> L = nat lc then p else adj g a L)) \<and>
             ((int (length (adj g nb (nat lc))) + 1 \<le> maxConn_of g lc \<and> p = adj g nb (nat lc) @ [i]) \<or>
              (int (length p) = maxConn_of g lc \<and> set p \<subseteq> set (adj g nb (nat lc) @ [i])))"
proof -
  from assms obtain l g1 where
    l: "get_neighbors g nb lc = Some l" and g1: "set_neighbors g nb lc (l @ [i]) = Some g1"
    and r: "(if maxConn_of g lc < int (length (l @ [i])) then
               (case pruneNeighbours g1 nb (l @ [i]) (maxConn_of g lc) of None \<Rightarrow> None
                | Some p \<Rightarrow> set_neighbors g1 nb lc p)
             else Some g1) = Some g'"
    unfolding connect_back_def by (auto split: option.splits)
  note L = get_neighbors_Some [OF l]
  note S1 = set_neighbors_Some [OF g1]
  have le: "l = adj g nb (nat lc)" by (rule L(4))
  show ?thesis
  proof (cases "maxConn_of g lc < int (length (l @ [i]))")
    case False
    with r have "g' = g1" by simp
    then have A: "same_frame g g'"
      and B: "\<forall>a L. adj g' a L = (if a = nb \<and> L = nat lc then l @ [i] else adj g a L)"
      using S1(4) S1(5) by simp_all
    have C: "int (length (adj g nb (nat lc))) + 1 \<le> maxConn_of g lc \<and> l @ [i] = adj g nb (nat lc) @ [i]"
      using False le by simp
    show ?thesis
      apply (rule exI [of _ "l @ [i]"])
      using L(1) L(2) L(3) A B C by blast
  next
    case True
    with r obtain p where p: "pruneNeighbours g1 nb (l @ [i]) (maxConn_of g lc) = Some p"
      and g2: "set_neighbors g1 nb lc p = Some g'" by (auto split: option.splits)
    note P = pruneNeighbours_Some [OF p True]
    note S2 = set_neighbors_Some [OF g2]
    have A: "same_frame g g'" using S1(4) S2(4) by (rule same_frame_trans)
    have B: "\<forall>a L. adj g' a L = (if a = nb \<and> L = nat lc then p else adj g a L)"
      using S1(5) S2(5) by simp
    have C: "int (length p) = maxConn_of g lc \<and> set p \<subseteq> set (adj g nb (nat lc) @ [i])"
      using P le by simp
    show ?thesis
      apply (rule exI [of _ p])
      using L(1) L(2) L(3) A B C by blast
  qed
qed

lemma link_step:
  assumes inv: "link_inv i L sel (nb # rest) g" and nbsel: "nb \<in> set sel"
    and cb: "connect_back i (int L) g nb = Some g'"
  shows "link_inv i L sel rest g' \<and> same_frame g g'"
proof -
  from connect_back_Some [OF cb] obtain p where
    nb: "nb < length (nodes g)" and Lnb: "L < layers g nb" and sf: "same_frame g g'"
    and adj': "\<And>a K. adj g' a K = (if a = nb \<and> K = L then p else adj g a K)"
    and D: "(int (length (adj g nb L)) + 1 \<le> maxConn_of g (int L) \<and> p = adj g nb L @ [i]) \<or>
            (int (length p) = maxConn_of g (int L) \<and> set p \<subseteq> set (adj g nb L @ [i]))"
    by auto
  have n': "length (nodes g') = length (nodes g)" and lay': "\<And>a. layers g' a = layers g a"
    using sf by (simp_all add: same_frame_def)
  have mc': "\<And>lc. maxConn_of g' lc = maxConn_of g lc" using sf by (rule same_frame_maxConn)
  have F1: "int (length p) \<le> maxConn_of g (int L)" using D by auto
  have F2: "\<And>x. x \<in> set (adj g nb L) \<or> x = i \<Longrightarrow> x \<in> set p \<or> int (length p) = maxConn_of g (int L)"
    using D by auto
  have F3: "int (length (adj g nb L)) = maxConn_of g (int L) \<Longrightarrow> int (length p) = maxConn_of g (int L)"
    using D by auto
  have F4: "set p \<subseteq> insert i (set (adj g nb L))" using D by auto
  from inv have i: "i < length (nodes g)" and Li: "L < layers g i"
    and edges: "\<And>a K b. a < length (nodes g) \<Longrightarrow> K < layers g a \<Longrightarrow> b \<in> set (adj g a K) \<Longrightarrow>
         edge_ok g a K b \<or> (a = i \<and> K = L \<and> b \<in> set (nb # rest))"
    and sel: "\<And>b. b \<in> set sel \<Longrightarrow> b \<in> set (adj g i L) \<or> int (length (adj g i L)) = maxConn_of g (int L)"
    and fresh: "fresh_below i L g"
    unfolding link_inv_def by blast+
  have E: "edge_ok g' a K b" if "edge_ok g a K b" for a K b
  proof (cases "b = nb \<and> K = L")
    case True
    then show ?thesis using that F2 [of a] F3 unfolding edge_ok_def by (auto simp: n' lay' mc' adj')
  next
    case False
    then show ?thesis using that unfolding edge_ok_def by (auto simp: n' lay' mc' adj')
  qed
  have sel': "b \<in> set (adj g' i L) \<or> int (length (adj g' i L)) = maxConn_of g' (int L)"
    if "b \<in> set sel" for b
  proof (cases "i = nb")
    case True
    then show ?thesis using sel [OF that] F2 [of b] F3 by (auto simp: adj' mc')
  next
    case False
    then show ?thesis using sel [OF that] by (simp add: adj' mc')
  qed
  have pend: "edge_ok g' i L nb"
    using nb Lnb F2 [of i] unfolding edge_ok_def by (auto simp: n' lay' mc' adj')
  have bk: "edge_ok g' nb L i"
    using i Li sel' [OF nbsel] unfolding edge_ok_def by (simp add: n' lay' mc')
  have slf: "nb \<in> set p \<Longrightarrow> edge_ok g' nb L nb"
    using nb Lnb unfolding edge_ok_def by (simp add: n' lay' adj')
  have edges': "edge_ok g' a K b \<or> (a = i \<and> K = L \<and> b \<in> set rest)"
    if a: "a < length (nodes g')" and K: "K < layers g' a" and b: "b \<in> set (adj g' a K)" for a K b
  proof (cases "a = nb \<and> K = L")
    case False
    then have "b \<in> set (adj g a K)" using b by (auto simp: adj')
    from edges [OF _ _ this] a K have "edge_ok g a K b \<or> (a = i \<and> K = L \<and> b \<in> set (nb # rest))"
      by (simp add: n' lay')
    then show ?thesis using E pend by auto
  next
    case True
    then have bp: "b \<in> set p" using b by (simp add: adj')
    then have "b = i \<or> b \<in> set (adj g nb L)" using F4 by auto
    then show ?thesis
    proof
      assume "b = i"
      then show ?thesis using bk True by simp
    next
      assume "b \<in> set (adj g nb L)"
      from edges [OF nb Lnb this]
      have "edge_ok g nb L b \<or> (nb = i \<and> b \<in> set (nb # rest))" by simp
      then show ?thesis using E True slf bp by auto
    qed
  qed
  have fresh': "fresh_below i L g'"
    using fresh unfolding fresh_below_def by (simp add: n' lay' adj')
  show ?thesis
    unfolding link_inv_def using i Li edges' sel' fresh' sf
    by (simp add: n' lay')
qed

lemma link_fold:
  "link_inv i L sel rest g \<Longrightarrow> set rest \<subseteq> set sel \<Longrightarrow>
   fold_opt (connect_back i (int L)) g rest = Some g' \<Longrightarrow>
   link_inv i L sel [] g' \<and> same_frame g g'"
proof (induction rest arbitrary: g)
  case Nil
  then show ?case by (simp add: same_frame_refl)
next
  case (Cons nb rest)
  from Cons.prems(3) obtain g1 where g1: "connect_back i (int L) g nb = Some g1"
    and r: "fold_opt (connect_back i (int L)) g1 rest = Some g'"
    by (auto split: option.splits)
  have nb: "nb \<in> set sel" using Cons.prems(2) by simp
  from link_step [OF Cons.prems(1) nb g1] have a: "link_inv i L sel rest g1" and b: "same_frame g g1"
    by simp_all
  have "set rest \<subseteq> set sel" using Cons.prems(2) by simp
  from Cons.IH [OF a this r] show ?case using b same_frame_trans by blast
qed

lemma selectNeighbours_Some:
  "selectNeighbours cs m = Some sel \<Longrightarrow> int (length sel) \<le> m"
  unfolding selectNeighbours_def by (auto split: if_splits)

lemma wrap64_double:
  "0 \<le> m \<Longrightarrow> m < 9223372036854775808 \<Longrightarrow> 0 \<le> wrap64 (2 * m) \<Longrightarrow> wrap64 (2 * m) = 2 * m"
proof -
  assume a: "0 \<le> m" "m < 9223372036854775808" "0 \<le> wrap64 (2 * m)"
  show ?thesis
  proof (cases "2 * m < 9223372036854775808")
    case True
    then have "(2 * m + 9223372036854775808) mod 18446744073709551616 = 2 * m + 9223372036854775808"
      using a(1) by (intro mod_pos_pos_trivial) auto
    then show ?thesis by (simp add: wrap64_def)
  next
    case False
    then have "(2 * m + 9223372036854775808 - 18446744073709551616) mod 18446744073709551616
        = 2 * m + 9223372036854775808 - 18446744073709551616"
      using a(2) by (intro mod_pos_pos_trivial) auto
    then have "(2 * m + 9223372036854775808) mod 18446744073709551616
        = 2 * m + 9223372036854775808 - 18446744073709551616"
      by (metis minus_mod_self2)
    then have "wrap64 (2 * m) < 0" using a(2) by (simp add: wrap64_def)
    then show ?thesis using a(3) by simp
  qed
qed

lemma insert_layer_inv:
  fixes g :: "('a::{zero,plus,times,ord}, 'r) Graph"
  assumes links: "links_ok g" and fresh: "fresh_below i (Suc L) g"
    and il: "insert_layer v i (g, ep) (int L) = Some (g', ep')"
  shows "links_ok g' \<and> fresh_below i L g' \<and> same_frame g g'"
proof -
  from il obtain sel g1 where
    s1: "set_neighbors g i (int L) sel = Some g1"
    and fo: "fold_opt (connect_back i (int L)) g1 sel = Some g'"
    unfolding insert_layer_def by (auto split: option.splits)
  note S = set_neighbors_Some [OF s1]
  have i: "i < length (nodes g)" and Li: "L < layers g i" using S(1) S(3) by simp_all
  have sf1: "same_frame g g1" by (rule S(4))
  have adj1: "\<And>a K. adj g1 a K = (if a = i \<and> K = L then sel else adj g a K)"
    using S(5) by simp
  have n1: "length (nodes g1) = length (nodes g)" and lay1: "\<And>a. layers g1 a = layers g a"
    using sf1 by (simp_all add: same_frame_def)
  have mc1: "\<And>lc. maxConn_of g1 lc = maxConn_of g lc" using sf1 by (rule same_frame_maxConn)
  have noi: "i \<notin> set (adj g a L)" if "a < length (nodes g)" "L < layers g a" for a
    using fresh that unfolding fresh_below_def by auto
  have edges1: "edge_ok g1 a K b \<or> (a = i \<and> K = L \<and> b \<in> set sel)"
    if a: "a < length (nodes g1)" and K: "K < layers g1 a" and b: "b \<in> set (adj g1 a K)" for a K b
  proof (cases "a = i \<and> K = L")
    case True
    then show ?thesis using b by (simp add: adj1)
  next
    case False
    then have bg: "b \<in> set (adj g a K)" using b by (auto simp: adj1)
    have a': "a < length (nodes g)" and K': "K < layers g a" using a K by (simp_all add: n1 lay1)
    have eo: "edge_ok g a K b" using links a' K' bg unfolding links_ok_def by blast
    have "\<not> (b = i \<and> K = L)" using noi [of a] a' K' bg by auto
    then have "adj g1 b K = adj g b K" by (auto simp: adj1)
    then have "edge_ok g1 a K b" using eo unfolding edge_ok_def by (simp add: n1 lay1 mc1)
    then show ?thesis by simp
  qed
  have fresh1: "fresh_below i L g1"
    using fresh unfolding fresh_below_def by (simp add: n1 lay1 adj1)
  have "link_inv i L sel sel g1"
    unfolding link_inv_def using i Li edges1 fresh1 by (simp add: n1 lay1 adj1)
  from link_fold [OF this _ fo] have li: "link_inv i L sel [] g'" and sf2: "same_frame g1 g'"
    by simp_all
  have "same_frame g g'" using sf1 sf2 by (rule same_frame_trans)
  moreover have "fresh_below i L g'" using li unfolding link_inv_def by simp
  moreover have "links_ok g'" using li unfolding link_inv_def links_ok_def by simp
  ultimately show ?thesis by simp
qed

lemma layers_fold:
  fixes g :: "('a::{zero,plus,times,ord}, 'r) Graph"
  shows "links_ok g \<Longrightarrow> fresh_below i (Suc K) g \<Longrightarrow>
   fold_opt (insert_layer v i) (g, ep) (map int (rev [0..<Suc K])) = Some (g', ep') \<Longrightarrow>
   links_ok g' \<and> same_frame g g'"
proof (induction K arbitrary: g ep)
  case 0
  then have "insert_layer v i (g, ep) (int 0) = Some (g', ep')"
    by (auto split: option.splits)
  from insert_layer_inv [OF "0.prems"(1) "0.prems"(2) this]
  show ?case by simp
next
  case (Suc K)
  from Suc.prems(3) obtain g1 ep1 where
    st: "insert_layer v i (g, ep) (int (Suc K)) = Some (g1, ep1)"
    and r: "fold_opt (insert_layer v i) (g1, ep1) (map int (rev [0..<Suc K])) = Some (g', ep')"
    by (auto split: option.splits)
  from insert_layer_inv [OF Suc.prems(1) Suc.prems(2) st]
  have l1: "links_ok g1" and f1: "fresh_below i (Suc K) g1"
    and sf: "same_frame g g1" by simp_all
  from Suc.IH [OF l1 f1 r]
  have "links_ok g' \<and> same_frame g1 g'" by simp
  then show ?case using sf same_frame_trans by blast
qed

lemma rev_upto_nat: "rev [0..int K] = map int (rev [0..<Suc K])"
proof (induction K)
  case 0
  show ?case by (simp add: upto.simps)
next
  case (Suc K)
  have "[0..int (Suc K)] = [0..int K] @ [int (Suc K)]"
    using upto_rec2 [of 0 "int (Suc K)"] by simp
  then show ?case using Suc by simp
qed

lemma cap_ok_cong: "nodes g' = nodes g \<Longrightarrow> gm g' = gm g \<Longrightarrow> cap_ok g' = cap_ok g"
  by (simp add: cap_ok_def layers_def adj_def maxConn_of_def)

lemma links_ok_cong: "nodes g' = nodes g \<Longrightarrow> gm g' = gm g \<Longrightarrow> links_ok g' = links_ok g"
  by (simp add: links_ok_def edge_ok_def layers_def adj_def maxConn_of_def)

subsection \<open>Frame: what an insertion leaves alone\<close>

lemma connect_fold_frame:
  "fold_opt (connect_back i lc) g sel = Some g' \<Longrightarrow> same_frame g g'"
proof (induction sel arbitrary: g)
  case Nil
  then show ?case by (simp add: same_frame_refl)
next
  case (Cons nb sel)
  from Cons.prems obtain g1 where g1: "connect_back i lc g nb = Some g1"
    and r: "fold_opt (connect_back i lc) g1 sel = Some g'"
    by (auto split: option.splits)
  from connect_back_Some [OF g1] have "same_frame g g1" by blast
  then show ?case using Cons.IH [OF r] same_frame_trans by blast
qed

lemma insert_layer_frame:
  fixes g :: "('a::{zero,plus,times,ord}, 'r) Graph"
  assumes "insert_layer v i (g, ep) lc = Some (g', ep')"
  shows "same_frame g g'"
proof -
  from assms obtain sel g1 where
    s1: "set_neighbors g i lc sel = Some g1"
    and fo: "fold_opt (connect_back i lc) g1 sel = Some g'"
    unfolding insert_layer_def by (auto split: option.splits)
  from set_neighbors_Some(4) [OF s1] connect_fold_frame [OF fo] show ?thesis
    by (rule same_frame_trans)
qed

lemma layers_frame:
  fixes g :: "('a::{zero,plus,times,ord}, 'r) Graph"
  shows "fold_opt (insert_layer v i) (g, ep) lcs = Some (g', ep') \<Longrightarrow> same_frame g g'"
proof (induction lcs arbitrary: g ep)
  case Nil
  then show ?case by (simp add: same_frame_refl)
next
  case (Cons lc lcs)
  from Cons.prems obtain g1 ep1 where st: "insert_layer v i (g, ep) lc = Some (g1, ep1)"
    and r: "fold_opt (insert_layer v i) (g1, ep1) lcs = Some (g', ep')"
    by (auto split: option.splits)
  from insert_layer_frame [OF st] Cons.IH [OF r] show ?case by (rule same_frame_trans)
qed

lemma Insert_at_Some:
  fixes g :: "('a::{zero,plus,times,ord}, 'r) Graph"
  assumes "Insert_at level v g = Some g'"
  shows "\<not> (0 \<le> level \<and> (wrap64 (2 * gm g) < 0 \<or> (1 \<le> level \<and> gm g < 0)))"
    and "(uint32 (length (nodes g)) = 0 \<and> g' = (with_node g level v)\<lparr>entryPoint := 0, maxLayer := level\<rparr>) \<or>
         (uint32 (length (nodes g)) \<noteq> 0 \<and> (\<exists>ep g1 ep'.
            fold_opt (insert_layer v (uint32 (length (nodes g)))) (with_node g level v, ep)
               (rev [0..min level (maxLayer g)]) = Some (g1, ep') \<and>
            g' = (if maxLayer g < level
                  then g1\<lparr>entryPoint := uint32 (length (nodes g)), maxLayer := level\<rparr> else g1)))"
proof -
  show "\<not> (0 \<le> level \<and> (wrap64 (2 * gm g) < 0 \<or> (1 \<le> level \<and> gm g < 0)))"
    using assms unfolding Insert_at_def by (auto simp: Let_def split: if_splits)
  have big: "(if uint32 (length (nodes g)) = 0
         then Some ((with_node g level v)\<lparr>entryPoint := 0, maxLayer := level\<rparr>)
         else (case fold_opt (greedySearchLayer (with_node g level v) v) (entryPoint (with_node g level v))
                            (rev [level + 1..maxLayer (with_node g level v)]) of
                       None \<Rightarrow> None
                     | Some ep \<Rightarrow>
                        (case fold_opt (insert_layer v (uint32 (length (nodes g)))) (with_node g level v, ep)
                                (rev [0..min level (maxLayer (with_node g level v))]) of
                           None \<Rightarrow> None
                         | Some (g1, ep') \<Rightarrow>
                             Some (if maxLayer (with_node g level v) < level
                                   then g1\<lparr>entryPoint := uint32 (length (nodes g)), maxLayer := level\<rparr>
                                   else g1)))) = Some g'"
    using assms unfolding Insert_at_def with_node_def by (simp add: Let_def split: if_splits)
  have mx: "maxLayer (with_node g level v) = maxLayer g" by (simp add: with_node_def)
  show "(uint32 (length (nodes g)) = 0 \<and> g' = (with_node g level v)\<lparr>entryPoint := 0, maxLayer := level\<rparr>) \<or>
         (uint32 (length (nodes g)) \<noteq> 0 \<and> (\<exists>ep g1 ep'.
            fold_opt (insert_layer v (uint32 (length (nodes g)))) (with_node g level v, ep)
               (rev [0..min level (maxLayer g)]) = Some (g1, ep') \<and>
            g' = (if maxLayer g < level
                  then g1\<lparr>entryPoint := uint32 (length (nodes g)), maxLayer := level\<rparr> else g1)))"
  proof (cases "uint32 (length (nodes g)) = 0")
    case True
    then show ?thesis using big by simp
  next
    case False
    with big obtain ep g1 ep' where
      "fold_opt (insert_layer v (uint32 (length (nodes g)))) (with_node g level v, ep)
          (rev [0..min level (maxLayer (with_node g level v))]) = Some (g1, ep')"
      and "g' = (if maxLayer (with_node g level v) < level
                 then g1\<lparr>entryPoint := uint32 (length (nodes g)), maxLayer := level\<rparr> else g1)"
      by (simp split: option.splits prod.splits)
    then show ?thesis using False unfolding mx by blast
  qed
qed

lemma Insert_at_frame:
  fixes g :: "('a::{zero,plus,times,ord}, 'r) Graph"
  assumes "Insert_at level v g = Some g'"
  shows "map vec (nodes g') = map vec (nodes g) @ [v] \<and>
         gm g' = gm g \<and> efConstruction g' = efConstruction g \<and> efSearch g' = efSearch g \<and>
         ml g' = ml g \<and> rng g' = rng g"
proof -
  have w: "map vec (nodes (with_node g level v)) = map vec (nodes g) @ [v]"
    "gm (with_node g level v) = gm g" "efConstruction (with_node g level v) = efConstruction g"
    "efSearch (with_node g level v) = efSearch g" "ml (with_node g level v) = ml g"
    "rng (with_node g level v) = rng g"
    by (simp_all add: with_node_def)
  from Insert_at_Some(2) [OF assms] show ?thesis
  proof
    assume "uint32 (length (nodes g)) = 0 \<and> g' = (with_node g level v)\<lparr>entryPoint := 0, maxLayer := level\<rparr>"
    then show ?thesis using w by simp
  next
    assume "uint32 (length (nodes g)) \<noteq> 0 \<and> (\<exists>ep g1 ep'.
            fold_opt (insert_layer v (uint32 (length (nodes g)))) (with_node g level v, ep)
               (rev [0..min level (maxLayer g)]) = Some (g1, ep') \<and>
            g' = (if maxLayer g < level
                  then g1\<lparr>entryPoint := uint32 (length (nodes g)), maxLayer := level\<rparr> else g1))"
    then obtain ep g1 ep' where
      fo: "fold_opt (insert_layer v (uint32 (length (nodes g)))) (with_node g level v, ep)
               (rev [0..min level (maxLayer g)]) = Some (g1, ep')"
      and g': "g' = (if maxLayer g < level
                  then g1\<lparr>entryPoint := uint32 (length (nodes g)), maxLayer := level\<rparr> else g1)"
      by blast
    from layers_frame [OF fo] have "same_frame (with_node g level v) g1" .
    then show ?thesis using w by (simp add: g' same_frame_def)
  qed
qed

lemma Insert_frame:
  fixes g :: "('a::{zero,plus,times,ord}, 'r) Graph"
  assumes "Insert lib v g = Some g'"
  shows "map vec (nodes g') = map vec (nodes g) @ [v] \<and>
         gm g' = gm g \<and> efConstruction g' = efConstruction g \<and> efSearch g' = efSearch g \<and>
         ml g' = ml g \<and> rng g' = snd (randomLevel lib g)"
  using Insert_at_frame [of "fst (randomLevel lib g)" v "g\<lparr>rng := snd (randomLevel lib g)\<rparr>" g'] assms
  by (simp add: Insert_def)

lemma insert_all_frame:
  fixes g :: "('a::{zero,plus,times,ord}, 'r) Graph"
  shows "insert_all lib g vs = Some g' \<Longrightarrow>
   map vec (nodes g') = map vec (nodes g) @ vs \<and>
   gm g' = gm g \<and> efConstruction g' = efConstruction g \<and> efSearch g' = efSearch g \<and> ml g' = ml g"
proof (induction vs arbitrary: g)
  case Nil
  then show ?case by (simp add: insert_all_def)
next
  case (Cons v vs)
  from Cons.prems obtain g1 where g1: "Insert lib v g = Some g1"
    and r: "insert_all lib g1 vs = Some g'"
    by (auto simp: insert_all_def split: option.splits)
  from Insert_frame [OF g1] Cons.IH [OF r] show ?case by simp
qed

lemma with_node_facts:
  "length (nodes (with_node g level v)) = Suc (length (nodes g))"
  "a < length (nodes g) \<Longrightarrow> layers (with_node g level v) a = layers g a"
  "layers (with_node g level v) (length (nodes g)) = nat (level + 1)"
  "a < length (nodes g) \<Longrightarrow> adj (with_node g level v) a L = adj g a L"
  "L < nat (level + 1) \<Longrightarrow> adj (with_node g level v) (length (nodes g)) L = []"
  "maxConn_of (with_node g level v) lc = maxConn_of g lc"
  "gm (with_node g level v) = gm g"
  by (simp_all add: with_node_def layers_def adj_def nth_append maxConn_of_def)

subsection \<open>The capacity bound is an invariant\<close>

lemma connect_back_cap:
  assumes cap: "cap_ok g" and cb: "connect_back i lc g nb = Some g'"
  shows "cap_ok g'"
proof -
  from connect_back_Some [OF cb] obtain p where
    lc: "0 \<le> lc" and sf: "same_frame g g'"
    and adj': "\<And>a K. adj g' a K = (if a = nb \<and> K = nat lc then p else adj g a K)"
    and D: "(int (length (adj g nb (nat lc))) + 1 \<le> maxConn_of g lc \<and> p = adj g nb (nat lc) @ [i]) \<or>
            (int (length p) = maxConn_of g lc \<and> set p \<subseteq> set (adj g nb (nat lc) @ [i]))"
    by auto
  have n': "length (nodes g') = length (nodes g)" and lay': "\<And>a. layers g' a = layers g a"
    using sf by (simp_all add: same_frame_def)
  have mc': "\<And>lc. maxConn_of g' lc = maxConn_of g lc" using sf by (rule same_frame_maxConn)
  have F1: "int (length p) \<le> maxConn_of g (int (nat lc))" using D lc by auto
  show ?thesis
    unfolding cap_ok_def
  proof (intro allI impI)
    fix a K assume "a < length (nodes g')" "K < layers g' a"
    then have "int (length (adj g a K)) \<le> maxConn_of g (int K)"
      using cap unfolding cap_ok_def by (simp add: n' lay')
    then show "int (length (adj g' a K)) \<le> maxConn_of g' (int K)"
      using F1 by (simp add: adj' mc')
  qed
qed

lemma connect_fold_cap:
  "cap_ok g \<Longrightarrow> fold_opt (connect_back i lc) g sel = Some g' \<Longrightarrow> cap_ok g'"
proof (induction sel arbitrary: g)
  case Nil
  then show ?case by simp
next
  case (Cons nb sel)
  from Cons.prems(2) obtain g1 where g1: "connect_back i lc g nb = Some g1"
    and r: "fold_opt (connect_back i lc) g1 sel = Some g'"
    by (auto split: option.splits)
  from connect_back_cap [OF Cons.prems(1) g1] have "cap_ok g1" .
  then show ?case using r by (rule Cons.IH)
qed

lemma insert_layer_cap:
  fixes g :: "('a::{zero,plus,times,ord}, 'r) Graph"
  assumes cap: "cap_ok g" and mb: "gm g < 9223372036854775808" and w: "0 \<le> wrap64 (2 * gm g)"
    and il: "insert_layer v i (g, ep) lc = Some (g', ep')"
  shows "cap_ok g'"
proof -
  from il obtain cands :: "'a candidate list" and sel g1 where
    sl: "selectNeighbours cands (gm g) = Some sel"
    and s1: "set_neighbors g i lc sel = Some g1"
    and fo: "fold_opt (connect_back i lc) g1 sel = Some g'"
    unfolding insert_layer_def by (auto split: option.splits)
  note S = set_neighbors_Some [OF s1]
  have lc: "0 \<le> lc" by (rule S(2))
  have sf1: "same_frame g g1" by (rule S(4))
  have adj1: "\<And>a K. adj g1 a K = (if a = i \<and> K = nat lc then sel else adj g a K)"
    using S(5) by simp
  have n1: "length (nodes g1) = length (nodes g)" and lay1: "\<And>a. layers g1 a = layers g a"
    using sf1 by (simp_all add: same_frame_def)
  have mc1: "\<And>lc. maxConn_of g1 lc = maxConn_of g lc" using sf1 by (rule same_frame_maxConn)
  have lensel: "int (length sel) \<le> gm g" by (rule selectNeighbours_Some [OF sl])
  then have m0: "0 \<le> gm g" by linarith
  have "gm g \<le> maxConn_of g (int (nat lc))"
    using wrap64_double [OF m0 mb w] m0 by (simp add: maxConn_of_def)
  with lensel have selcap: "int (length sel) \<le> maxConn_of g (int (nat lc))" by linarith
  have cap1: "cap_ok g1"
    unfolding cap_ok_def
  proof (intro allI impI)
    fix a K assume "a < length (nodes g1)" "K < layers g1 a"
    then have "int (length (adj g a K)) \<le> maxConn_of g (int K)"
      using cap unfolding cap_ok_def by (simp add: n1 lay1)
    then show "int (length (adj g1 a K)) \<le> maxConn_of g1 (int K)"
      using selcap by (simp add: adj1 mc1)
  qed
  then show ?thesis using fo by (rule connect_fold_cap)
qed

lemma layers_cap:
  fixes g :: "('a::{zero,plus,times,ord}, 'r) Graph"
  shows "cap_ok g \<Longrightarrow> gm g < 9223372036854775808 \<Longrightarrow> 0 \<le> wrap64 (2 * gm g) \<Longrightarrow>
   fold_opt (insert_layer v i) (g, ep) lcs = Some (g', ep') \<Longrightarrow> cap_ok g'"
proof (induction lcs arbitrary: g ep)
  case Nil
  then show ?case by simp
next
  case (Cons lc lcs)
  from Cons.prems(4) obtain g1 ep1 where st: "insert_layer v i (g, ep) lc = Some (g1, ep1)"
    and r: "fold_opt (insert_layer v i) (g1, ep1) lcs = Some (g', ep')"
    by (auto split: option.splits)
  have c1: "cap_ok g1" using Cons.prems(1) Cons.prems(2) Cons.prems(3) st by (rule insert_layer_cap)
  have "gm g1 = gm g" using insert_layer_frame [OF st] by (simp add: same_frame_def)
  then show ?case using Cons.IH [OF c1 _ _ r] Cons.prems(2) Cons.prems(3) by simp
qed

lemma with_node_cap:
  assumes cap: "cap_ok g"
    and al: "\<not> (0 \<le> level \<and> (wrap64 (2 * gm g) < 0 \<or> (1 \<le> level \<and> gm g < 0)))"
  shows "cap_ok (with_node g level v)"
  unfolding cap_ok_def
proof (intro allI impI)
  fix a L
  assume a: "a < length (nodes (with_node g level v))" and L: "L < layers (with_node g level v) a"
  show "int (length (adj (with_node g level v) a L)) \<le> maxConn_of (with_node g level v) (int L)"
  proof (cases "a < length (nodes g)")
    case True
    then have La: "L < layers g a" using L by (simp add: with_node_facts)
    have "int (length (adj g a L)) \<le> maxConn_of g (int L)"
      using cap True La unfolding cap_ok_def by blast
    then show ?thesis using True by (simp add: with_node_facts)
  next
    case False
    then have an: "a = length (nodes g)" using a by (simp add: with_node_facts)
    then have L': "L < nat (level + 1)" using L by (simp add: with_node_facts)
    then have "0 \<le> maxConn_of g (int L)" using al by (auto simp: maxConn_of_def)
    then show ?thesis using an L' by (simp add: with_node_facts)
  qed
qed

lemma Insert_at_cap:
  fixes g :: "('a::{zero,plus,times,ord}, 'r) Graph"
  assumes cap: "cap_ok g" and mb: "gm g < 9223372036854775808"
    and ins: "Insert_at level v g = Some g'"
  shows "cap_ok g'"
proof -
  note al = Insert_at_Some(1) [OF ins]
  have cap0: "cap_ok (with_node g level v)" using cap al by (rule with_node_cap)
  from Insert_at_Some(2) [OF ins] show ?thesis
  proof
    assume "uint32 (length (nodes g)) = 0 \<and> g' = (with_node g level v)\<lparr>entryPoint := 0, maxLayer := level\<rparr>"
    then show ?thesis using cap0 cap_ok_cong [of g' "with_node g level v"] by simp
  next
    assume "uint32 (length (nodes g)) \<noteq> 0 \<and> (\<exists>ep g1 ep'.
            fold_opt (insert_layer v (uint32 (length (nodes g)))) (with_node g level v, ep)
               (rev [0..min level (maxLayer g)]) = Some (g1, ep') \<and>
            g' = (if maxLayer g < level
                  then g1\<lparr>entryPoint := uint32 (length (nodes g)), maxLayer := level\<rparr> else g1))"
    then obtain ep g1 ep' where
      fo: "fold_opt (insert_layer v (uint32 (length (nodes g)))) (with_node g level v, ep)
               (rev [0..min level (maxLayer g)]) = Some (g1, ep')"
      and g': "g' = (if maxLayer g < level
                  then g1\<lparr>entryPoint := uint32 (length (nodes g)), maxLayer := level\<rparr> else g1)"
      by blast
    have c1: "cap_ok g1"
    proof (cases "min level (maxLayer g) < 0")
      case True
      then have "rev [0..min level (maxLayer g)] = []" by simp
      with fo have "g1 = with_node g level v" by simp
      then show ?thesis using cap0 by simp
    next
      case False
      then have "0 \<le> level" by simp
      then have w: "0 \<le> wrap64 (2 * gm (with_node g level v))" using al by (auto simp: with_node_facts)
      have mb0: "gm (with_node g level v) < 9223372036854775808" using mb by (simp add: with_node_facts)
      from layers_cap [OF cap0 mb0 w fo] show ?thesis .
    qed
    show ?thesis using c1 cap_ok_cong [of g' g1] by (simp add: g')
  qed
qed

lemma insert_all_cap:
  fixes g :: "('a::{zero,plus,times,ord}, 'r) Graph"
  shows "cap_ok g \<Longrightarrow> gm g < 9223372036854775808 \<Longrightarrow> insert_all lib g vs = Some g' \<Longrightarrow> cap_ok g'"
proof (induction vs arbitrary: g)
  case Nil
  then show ?case by (simp add: insert_all_def)
next
  case (Cons v vs)
  from Cons.prems(3) obtain g1 where g1: "Insert lib v g = Some g1"
    and r: "insert_all lib g1 vs = Some g'"
    by (auto simp: insert_all_def split: option.splits)
  define h where "h = g\<lparr>rng := snd (randomLevel lib g)\<rparr>"
  have a: "cap_ok h" using Cons.prems(1) cap_ok_cong [of h g] by (simp add: h_def)
  have c: "gm h < 9223372036854775808" using Cons.prems(2) by (simp add: h_def)
  have e: "Insert_at (fst (randomLevel lib g)) v h = Some g1"
    using g1 by (simp add: Insert_def h_def)
  have c1: "cap_ok g1" using a c e by (rule Insert_at_cap)
  have "gm g1 = gm g" using Insert_frame [OF g1] by simp
  then show ?case using Cons.IH [OF c1 _ r] Cons.prems(2) by simp
qed

subsection \<open>Links are reciprocated or the peer is full: an invariant\<close>

lemma with_node_links:
  assumes links: "links_ok g"
  shows "links_ok (with_node g level v)" and "fresh_below (length (nodes g)) K (with_node g level v)"
proof -
  have old: "edge_ok g a L b" if "a < length (nodes g)" "L < layers g a" "b \<in> set (adj g a L)" for a L b
    using links that unfolding links_ok_def by blast
  show "links_ok (with_node g level v)"
    unfolding links_ok_def
  proof (intro allI impI ballI)
    fix a L b
    assume a: "a < length (nodes (with_node g level v))" and L: "L < layers (with_node g level v) a"
      and b: "b \<in> set (adj (with_node g level v) a L)"
    show "edge_ok (with_node g level v) a L b"
    proof (cases "a < length (nodes g)")
      case True
      then have "edge_ok g a L b" using L b old by (simp add: with_node_facts)
      then show ?thesis unfolding edge_ok_def by (auto simp: with_node_facts)
    next
      case False
      then have an: "a = length (nodes g)" using a by (simp add: with_node_facts)
      then have "L < nat (level + 1)" using L by (simp add: with_node_facts)
      then show ?thesis using b an by (simp add: with_node_facts)
    qed
  qed
  show "fresh_below (length (nodes g)) K (with_node g level v)"
    unfolding fresh_below_def
  proof (intro allI impI)
    fix L a
    assume a: "a < length (nodes (with_node g level v))" and L: "L < layers (with_node g level v) a"
    show "length (nodes g) \<notin> set (adj (with_node g level v) a L)"
    proof (cases "a < length (nodes g)")
      case True
      have "b < length (nodes g)" if "b \<in> set (adj g a L)" for b
        using old [of a L b] True L that by (simp add: with_node_facts edge_ok_def)
      then have "length (nodes g) \<notin> set (adj g a L)" by blast
      then show ?thesis using True by (simp add: with_node_facts)
    next
      case False
      then have an: "a = length (nodes g)" using a by (simp add: with_node_facts)
      then have "L < nat (level + 1)" using L by (simp add: with_node_facts)
      then show ?thesis using an by (simp add: with_node_facts)
    qed
  qed
qed

lemma Insert_at_links:
  fixes g :: "('a::{zero,plus,times,ord}, 'r) Graph"
  assumes links: "links_ok g" and nb: "length (nodes g) < 4294967296"
    and ins: "Insert_at level v g = Some g'"
  shows "links_ok g'"
proof -
  have u: "uint32 (length (nodes g)) = length (nodes g)" using nb by (simp add: uint32_def)
  note W = with_node_links [OF links, where level = level and v = v]
  from Insert_at_Some(2) [OF ins] show ?thesis
  proof
    assume "uint32 (length (nodes g)) = 0 \<and> g' = (with_node g level v)\<lparr>entryPoint := 0, maxLayer := level\<rparr>"
    then show ?thesis using W(1) links_ok_cong [of g' "with_node g level v"] by simp
  next
    assume "uint32 (length (nodes g)) \<noteq> 0 \<and> (\<exists>ep g1 ep'.
            fold_opt (insert_layer v (uint32 (length (nodes g)))) (with_node g level v, ep)
               (rev [0..min level (maxLayer g)]) = Some (g1, ep') \<and>
            g' = (if maxLayer g < level
                  then g1\<lparr>entryPoint := uint32 (length (nodes g)), maxLayer := level\<rparr> else g1))"
    then obtain ep g1 ep' where
      fo: "fold_opt (insert_layer v (length (nodes g))) (with_node g level v, ep)
               (rev [0..min level (maxLayer g)]) = Some (g1, ep')"
      and g': "g' = (if maxLayer g < level
                  then g1\<lparr>entryPoint := length (nodes g), maxLayer := level\<rparr> else g1)"
      unfolding u by blast
    have l1: "links_ok g1"
    proof (cases "min level (maxLayer g) < 0")
      case True
      then have "rev [0..min level (maxLayer g)] = []" by simp
      with fo have "g1 = with_node g level v" by simp
      then show ?thesis using W(1) by simp
    next
      case False
      define K where "K = nat (min level (maxLayer g))"
      have "min level (maxLayer g) = int K" using False unfolding K_def by linarith
      then have "rev [0..min level (maxLayer g)] = map int (rev [0..<Suc K])"
        using rev_upto_nat [of K] by simp
      with fo have fo': "fold_opt (insert_layer v (length (nodes g))) (with_node g level v, ep)
          (map int (rev [0..<Suc K])) = Some (g1, ep')"
        by simp
      from layers_fold [OF W(1) W(2) fo'] show ?thesis by simp
    qed
    show ?thesis using l1 links_ok_cong [of g' g1] by (simp add: g')
  qed
qed

lemma insert_all_links:
  fixes g :: "('a::{zero,plus,times,ord}, 'r) Graph"
  shows "links_ok g \<Longrightarrow> length (nodes g) + length vs \<le> 4294967296 \<Longrightarrow>
    insert_all lib g vs = Some g' \<Longrightarrow> links_ok g'"
proof (induction vs arbitrary: g)
  case Nil
  then show ?case by (simp add: insert_all_def)
next
  case (Cons v vs)
  from Cons.prems(3) obtain g1 where g1: "Insert lib v g = Some g1"
    and r: "insert_all lib g1 vs = Some g'"
    by (auto simp: insert_all_def split: option.splits)
  define h where "h = g\<lparr>rng := snd (randomLevel lib g)\<rparr>"
  have a: "links_ok h" using Cons.prems(1) links_ok_cong [of h g] by (simp add: h_def)
  have d: "length (nodes h) < 4294967296" using Cons.prems(2) by (simp add: h_def)
  have e: "Insert_at (fst (randomLevel lib g)) v h = Some g1"
    using g1 by (simp add: Insert_def h_def)
  have l1: "links_ok g1" using a d e by (rule Insert_at_links)
  have "map vec (nodes g1) = map vec (nodes g) @ [v]" using Insert_frame [OF g1] by simp
  then have "length (nodes g1) = Suc (length (nodes g))" by (metis length_map length_append_singleton)
  then have "length (nodes g1) + length vs \<le> 4294967296" using Cons.prems(2) by simp
  from Cons.IH [OF l1 this r] show ?case .
qed

section \<open>Concrete runs\<close>

lemma level_zero:
  fixes u :: real
  assumes m: "2 \<le> m" and lo: "1 / real_of_int m < u" and hi: "u < 1"
  shows "\<lfloor>- ln u * (1 / ln (real_of_int m))\<rfloor> = 0"
proof -
  have mpos: "0 < real_of_int m" using m by simp
  have lnm: "0 < ln (real_of_int m)" using m by simp
  have upos: "0 < u" using lo mpos by (meson divide_pos_pos less_trans zero_less_one)
  have a: "0 \<le> - ln u" using upos hi by simp
  have "ln (1 / real_of_int m) < ln u" using lo mpos upos by (simp add: ln_less_cancel_iff)
  then have b: "- ln u < ln (real_of_int m)" using mpos by (simp add: ln_div)
  have e: "- ln u * (1 / ln (real_of_int m)) = (- ln u) / ln (real_of_int m)" by simp
  have "0 \<le> (- ln u) / ln (real_of_int m)" using a lnm by (intro divide_nonneg_pos)
  moreover have "(- ln u) / ln (real_of_int m) < 1" using b lnm by (simp only: divide_less_eq_1_pos)
  ultimately show ?thesis unfolding e by (simp only: floor_eq_iff) simp
qed

lemma Insert_layer0:
  assumes "2 \<le> m" "1 / real_of_int m < u" "u < 1"
  shows "Insert (fixed_rand u) v (layer0_graph m efc efs r ns)
         = Insert_at 0 v (layer0_graph m efc efs (r + 1) ns)"
  using level_zero [OF assms]
  by (simp add: Insert_def randomLevel_def fixed_rand_def layer0_graph_def)

lemma New_layer0: "New (fixed_rand u) m efc efs = layer0_graph (if m \<le> 0 then 16 else m)
    (if efc \<le> 0 then 200 else efc) (if efs \<le> 0 then 50 else efs) 0 []"
  by (simp add: New_def fixed_rand_def layer0_graph_def DefaultM_def DefaultEfConstruction_def
      DefaultEfSearch_def)

lemmas ev = uint32_def wrap64_def sim_def heap_Pop_def heap_Push_def heap_Init_def swap_def
  heap_down.simps heap_up.simps maxHeap_Less_def sortDesc_def upt_rec removeWorst_def
  sl_visit_def searchLayer_def searchLayer_loop.simps greedy_visit_def greedy_loop.simps
  greedySearchLayer_def selectNeighbours_def pruneNeighbours_def get_neighbors_def
  set_neighbors_def maxConn_of_def connect_back_def insert_layer_def Insert_at_def Let_def
  upto.simps layer0_graph_def

lemma step1: "Insert_at 0 [1, 0] (layer0_graph 2 200 50 r []) = Some (layer0_graph 2 200 50 r [([], [1, 0])])"
  by (simp add: ev)

lemma step2: "Insert_at 0 [1, 0] (layer0_graph 2 200 50 r [([], [1, 0])])
   = Some (layer0_graph 2 200 50 r [([1], [1, 0]), ([0], [1, 0])])"
  by (simp add: ev)

lemma step3: "Insert_at 0 [1, 0] (layer0_graph 2 200 50 r [([1], [1, 0]), ([0], [1, 0])])
   = Some (layer0_graph 2 200 50 r [([1, 2], [1, 0]), ([0, 2], [1, 0]), ([0, 1], [1, 0])])"
  by (simp add: ev)

lemma step4: "Insert_at 0 [1, 0] (layer0_graph 2 200 50 r [([1, 2], [1, 0]), ([0, 2], [1, 0]), ([0, 1], [1, 0])])
   = Some (layer0_graph 2 200 50 r [([1, 2, 3], [1, 0]), ([0, 2, 3], [1, 0]), ([0, 1], [1, 0]), ([0, 1], [1, 0])])"
  by (simp add: ev)

lemma step5: "Insert_at 0 [1, 0] (layer0_graph 2 200 50 r [([1, 2, 3], [1, 0]), ([0, 2, 3], [1, 0]), ([0, 1], [1, 0]), ([0, 1], [1, 0])])
   = Some (layer0_graph 2 200 50 r [([1, 2, 3, 4], [1, 0]), ([0, 2, 3, 4], [1, 0]), ([0, 1], [1, 0]), ([0, 1], [1, 0]), ([0, 1], [1, 0])])"
  by (simp add: ev)

lemma step6: "Insert_at 0 [0, 1] (layer0_graph 2 200 50 r [([1, 2, 3, 4], [1, 0]), ([0, 2, 3, 4], [1, 0]), ([0, 1], [1, 0]), ([0, 1], [1, 0]), ([0, 1], [1, 0])])
   = Some (layer0_graph 2 200 50 r [([1, 2, 3, 4], [1, 0]), ([0, 2, 3, 4], [1, 0]), ([0, 1], [1, 0]), ([0, 1], [1, 0]), ([0, 1], [1, 0]), ([0, 1], [0, 1])])"
  by (simp add: ev)

lemma build6:
  "insert_all (fixed_rand (3/4)) (New (fixed_rand (3/4)) 2 200 50)
      [[1, 0], [1, 0], [1, 0], [1, 0], [1, 0], [0, 1]] = Some pruned_graph"
proof -
  have N: "New (fixed_rand (3/4)) 2 200 50 = layer0_graph 2 200 50 0 []"
    by (simp add: New_layer0)
  have I: "\<And>v r ns. Insert (fixed_rand (3/4)) v (layer0_graph 2 200 50 r ns)
      = Insert_at 0 v (layer0_graph 2 200 50 (r + 1) ns)"
    by (rule Insert_layer0) simp_all
  have "insert_all (fixed_rand (3/4)) (New (fixed_rand (3/4)) 2 200 50)
      [[1, 0], [1, 0], [1, 0], [1, 0], [1, 0], [0, 1]]
   = Some (layer0_graph 2 200 50 (0 + 1 + 1 + 1 + 1 + 1 + 1)
       [([1, 2, 3, 4], [1, 0]), ([0, 2, 3, 4], [1, 0]), ([0, 1], [1, 0]),
        ([0, 1], [1, 0]), ([0, 1], [1, 0]), ([0, 1], [0, 1])])"
    unfolding insert_all_def N
    by (simp only: fold_opt.simps I step1 step2 step3 step4 step5 step6 option.case)
  moreover have "(0::nat) + 1 + 1 + 1 + 1 + 1 + 1 = 6" by simp
  ultimately show ?thesis by (simp only: pruned_graph_def)
qed

lemma step_short: "Insert_at 0 [1] (layer0_graph 16 200 50 r [([], [1, 0])])
   = Some (layer0_graph 16 200 50 r [([1], [1, 0]), ([0], [1])])"
  by (simp add: ev)

lemma step_first: "Insert_at 0 [1, 0] (layer0_graph 16 200 50 r [])
   = Some (layer0_graph 16 200 50 r [([], [1, 0])])"
  by (simp add: ev)

section \<open>Claims about insertion\<close>

lemma maxConn_plain:
  assumes "0 < gm g" and "gm g < 9223372036854775808" and "0 \<le> maxConn_of g (int L)"
  shows "maxConn_of g (int L) = (if L = 0 then 2 * gm g else gm g)"
proof (cases "L = 0")
  case True
  then have "0 \<le> wrap64 (2 * gm g)" using assms(3) by (simp add: maxConn_of_def)
  then have "wrap64 (2 * gm g) = 2 * gm g" using assms(1) assms(2) by (intro wrap64_double) simp_all
  then show ?thesis using True by (simp add: maxConn_of_def)
next
  case False
  then show ?thesis by (simp add: maxConn_of_def)
qed

lemma New_invariants:
  "cap_ok (New lib m0 efc efs)" "links_ok (New lib m0 efc efs)"
  "nodes (New lib m0 efc efs) = []" "gm (New lib m0 efc efs) = (if m0 \<le> 0 then 16 else m0)"
  by (simp_all add: cap_ok_def links_ok_def New_def Let_def DefaultM_def)

text \<open>
  C3, as stated, fails: \<open>Insert\<close> has no error result and checks no dimension.  In the graph
  holding the single vector \<open>(1, 0)\<close> of dimension 2, inserting the vector \<open>(1)\<close> of
  dimension 1 returns normally and the graph has a second node.
\<close>

theorem C3_counterexample:
  "insert_all (fixed_rand (3/4)) (New (fixed_rand (3/4)) 16 200 50) [[1, 0]]
     = Some (layer0_graph 16 200 50 1 [([], [1, 0])])
   \<and> Insert (fixed_rand (3/4)) [1] (layer0_graph 16 200 50 1 [([], [1, 0])])
     = Some (layer0_graph 16 200 50 2 [([1], [1, 0]), ([0], [1])])
   \<and> Len (layer0_graph 16 200 50 2 [([1], [1, 0]), ([0], [1])]) = 2"
proof -
  have I: "\<And>v r ns. Insert (fixed_rand (3/4)) v (layer0_graph 16 200 50 r ns)
      = Insert_at 0 v (layer0_graph 16 200 50 (r + 1) ns)"
    by (rule Insert_layer0) simp_all
  have N: "New (fixed_rand (3/4)) 16 200 50 = layer0_graph 16 200 50 0 []"
    by (simp add: New_layer0)
  have e: "(0::nat) + 1 = 1" "(1::nat) + 1 = 2" by simp_all
  have "insert_all (fixed_rand (3/4)) (New (fixed_rand (3/4)) 16 200 50) [[1, 0]]
     = Some (layer0_graph 16 200 50 1 [([], [1, 0])])"
    unfolding insert_all_def N by (simp only: fold_opt.simps I step_first option.case e)
  moreover have "Insert (fixed_rand (3/4)) [1] (layer0_graph 16 200 50 1 [([], [1, 0])])
     = Some (layer0_graph 16 200 50 2 [([1], [1, 0]), ([0], [1])])"
    by (simp only: I step_short e)
  moreover have "Len (layer0_graph 16 200 50 2 [([1], [1, 0]), ([0], [1])]) = 2"
    by (simp add: Len_def layer0_graph_def)
  ultimately show ?thesis by (simp only: simp_thms)
qed

text \<open>
  C3 (amended): \<open>Insert\<close> reports no error and checks no dimension: whenever a call returns,
  the graph has exactly one more node, which holds the given vector, whatever its
  dimension; the vectors already stored and the parameters are unchanged.
\<close>

theorem C3_Insert_appends:
  fixes g :: "('a::{zero,plus,times,ord}, 'r) Graph"
  assumes "Insert lib v g = Some g'"
  shows "Len g' = Len g + 1 \<and> map vec (nodes g') = map vec (nodes g) @ [v]
       \<and> gm g' = gm g \<and> efConstruction g' = efConstruction g \<and> efSearch g' = efSearch g"
proof -
  from Insert_frame [OF assms] have f: "map vec (nodes g') = map vec (nodes g) @ [v]"
    "gm g' = gm g" "efConstruction g' = efConstruction g" "efSearch g' = efSearch g"
    by simp_all
  have "length (nodes g') = Suc (length (nodes g))"
    using f(1) by (metis length_map length_append_singleton)
  then show ?thesis using f by (simp add: Len_def)
qed

theorem C3_Insert_appends_witness:
  "Len (layer0_graph 16 200 50 2 [([1], [1, 0]), ([0], [1])])
     = Len (layer0_graph 16 200 50 1 [([], [1, 0])]) + 1
   \<and> map vec (nodes (layer0_graph 16 200 50 2 [([1], [1, 0]), ([0], [1])]))
     = map vec (nodes (layer0_graph 16 200 50 1 [([], [1, 0])])) @ [[1]]"
proof -
  have I: "\<And>v r ns. Insert (fixed_rand (3/4)) v (layer0_graph 16 200 50 r ns)
      = Insert_at 0 v (layer0_graph 16 200 50 (r + 1) ns)"
    by (rule Insert_layer0) simp_all
  have e: "(1::nat) + 1 = 2" by simp
  have h: "Insert (fixed_rand (3/4)) [1] (layer0_graph 16 200 50 1 [([], [1, 0])])
     = Some (layer0_graph 16 200 50 2 [([1], [1, 0]), ([0], [1])])"
    by (simp only: I step_short e)
  from C3_Insert_appends [OF h] show ?thesis by blast
qed

text \<open>
  C4, as stated, fails: pruning a full neighbour list drops links on one side only.  In the
  graph built with \<open>m = 2\<close> (layer-0 capacity 4) from five copies of \<open>(1, 0)\<close> and then
  \<open>(0, 1)\<close>, node 5 lists node 0 at layer 0, and node 0 does not list node 5.
\<close>

theorem C4_counterexample:
  "insert_all (fixed_rand (3/4)) (New (fixed_rand (3/4)) 2 200 50)
      [[1, 0], [1, 0], [1, 0], [1, 0], [1, 0], [0, 1]] = Some pruned_graph
   \<and> 0 \<in> set (neighbors (nodes pruned_graph ! 5) ! 0)
   \<and> 5 \<notin> set (neighbors (nodes pruned_graph ! 0) ! 0)"
proof -
  have "0 \<in> set (neighbors (nodes pruned_graph ! 5) ! 0)"
    by (simp add: pruned_graph_def layer0_graph_def)
  moreover have "5 \<notin> set (neighbors (nodes pruned_graph ! 0) ! 0)"
    by (simp add: pruned_graph_def layer0_graph_def)
  ultimately show ?thesis using build6 by (simp only: simp_thms)
qed

text \<open>
  C4 (amended): after any completed sequence of at most \<open>2^32\<close> insertions into a fresh
  graph, for every node \<open>a\<close> and layer \<open>L\<close>, every id \<open>b\<close> in the neighbour list of \<open>a\<close> at \<open>L\<close>
  is a node that has a layer \<open>L\<close>, and either \<open>b\<close> lists \<open>a\<close> at layer \<open>L\<close> or the list of
  \<open>b\<close> at layer \<open>L\<close> is full (\<open>m\<close> entries above layer 0, \<open>2 m\<close> at layer 0).  (\<open>m0\<close> is a Go
  \<open>int\<close>, hence below \<open>2^63\<close>.)
\<close>

theorem C4_links_reciprocated_or_full:
  fixes g :: "('a::{zero,plus,times,ord}, 'r) Graph"
  assumes "m0 < 9223372036854775808" and "length vs \<le> 4294967296"
    and "insert_all lib (New lib m0 efc efs) vs = Some g"
    and "a < length (nodes g)" and "L < length (neighbors (nodes g ! a))"
    and "b \<in> set (neighbors (nodes g ! a) ! L)"
  shows "b < length (nodes g) \<and> L < length (neighbors (nodes g ! b)) \<and>
         (a \<in> set (neighbors (nodes g ! b) ! L) \<or>
          int (length (neighbors (nodes g ! b) ! L)) = (if L = 0 then 2 * gm g else gm g))"
proof -
  have len: "length (nodes (New lib m0 efc efs :: ('a, 'r) Graph)) + length vs \<le> 4294967296"
    using assms(2) by (simp add: New_invariants)
  have "links_ok g" using New_invariants(2) len assms(3) by (rule insert_all_links)
  then have eo: "edge_ok g a L b"
    using assms(4) assms(5) assms(6) unfolding links_ok_def layers_def adj_def by blast
  have "gm g = gm (New lib m0 efc efs :: ('a, 'r) Graph)" using insert_all_frame [OF assms(3)] by simp
  then have gmg: "gm g = (if m0 \<le> 0 then 16 else m0)" by (simp add: New_invariants)
  then have pos: "0 < gm g" and lt: "gm g < 9223372036854775808" using assms(1) by auto
  have "int (length (adj g b L)) = maxConn_of g (int L) \<Longrightarrow>
        int (length (adj g b L)) = (if L = 0 then 2 * gm g else gm g)"
    using maxConn_plain [OF pos lt, of L] by (metis of_nat_0_le_iff)
  then show ?thesis using eo unfolding edge_ok_def layers_def adj_def by blast
qed

theorem C4_links_reciprocated_or_full_witness:
  "(5::nat) < length (nodes pruned_graph) \<and> (0::nat) < length (neighbors (nodes pruned_graph ! 5))
   \<and> (0::nat) \<in> set (neighbors (nodes pruned_graph ! 5) ! 0)
   \<and> 0 < length (nodes pruned_graph) \<and> 0 < length (neighbors (nodes pruned_graph ! 0))
   \<and> (5 \<in> set (neighbors (nodes pruned_graph ! 0) ! 0) \<or>
       int (length (neighbors (nodes pruned_graph ! 0) ! 0)) = 2 * gm pruned_graph)"
proof -
  have a: "(5::nat) < length (nodes pruned_graph)"
    and b: "(0::nat) < length (neighbors (nodes pruned_graph ! 5))"
    and c: "(0::nat) \<in> set (neighbors (nodes pruned_graph ! 5) ! 0)"
    by (simp_all add: pruned_graph_def layer0_graph_def)
  have m: "(2::int) < 9223372036854775808" by simp
  have l: "length [[1, 0], [1, 0], [1, 0], [1, 0], [1, 0], [0, 1::int]] \<le> 4294967296" by simp
  from C4_links_reciprocated_or_full [OF m l build6 a b c] a b c show ?thesis by simp
qed

text \<open>
  C5: after any completed sequence of insertions into a fresh graph, every neighbour list
  at a layer \<open>L > 0\<close> has at most \<open>m\<close> entries and every list at layer 0 at most \<open>2 m\<close>, where
  \<open>m\<close> is the parameter of the graph (the argument of \<open>New\<close>, or 16 when that is not
  positive).  (\<open>m0\<close> is a Go \<open>int\<close>, hence below \<open>2^63\<close>.)
\<close>

theorem C5_capacity_bound:
  fixes g :: "('a::{zero,plus,times,ord}, 'r) Graph"
  assumes "m0 < 9223372036854775808"
    and "insert_all lib (New lib m0 efc efs) vs = Some g"
    and "a < length (nodes g)" and "L < length (neighbors (nodes g ! a))"
  shows "int (length (neighbors (nodes g ! a) ! L)) \<le> (if L = 0 then 2 * gm g else gm g)
       \<and> gm g = (if m0 \<le> 0 then 16 else m0)"
proof -
  have gm0: "gm (New lib m0 efc efs :: ('a, 'r) Graph) < 9223372036854775808"
    using assms(1) by (simp add: New_invariants)
  have "cap_ok g" using New_invariants(1) gm0 assms(2) by (rule insert_all_cap)
  then have le: "int (length (adj g a L)) \<le> maxConn_of g (int L)"
    using assms(3) assms(4) unfolding cap_ok_def layers_def by blast
  have "gm g = gm (New lib m0 efc efs :: ('a, 'r) Graph)" using insert_all_frame [OF assms(2)] by simp
  then have gmg: "gm g = (if m0 \<le> 0 then 16 else m0)" by (simp add: New_invariants)
  then have pos: "0 < gm g" and lt: "gm g < 9223372036854775808" using assms(1) by auto
  have "0 \<le> maxConn_of g (int L)" using le by linarith
  from maxConn_plain [OF pos lt this] le gmg show ?thesis by (simp add: adj_def)
qed

theorem C5_capacity_bound_witness:
  "int (length (neighbors (nodes pruned_graph ! 0) ! 0)) \<le> 2 * gm pruned_graph
   \<and> gm pruned_graph = 2 \<and> length (neighbors (nodes pruned_graph ! 0) ! 0) = 4"
proof -
  have a: "(0::nat) < length (nodes pruned_graph)"
    and b: "(0::nat) < length (neighbors (nodes pruned_graph ! 0))"
    and c: "length (neighbors (nodes pruned_graph ! 0) ! 0) = 4"
    by (simp_all add: pruned_graph_def layer0_graph_def)
  have m: "(2::int) < 9223372036854775808" by simp
  from C5_capacity_bound [OF m build6 a b] c show ?thesis by simp
qed

end
